theory Spec2Isabelle
  imports Main
begin

section \<open>The template scanner of htmltools (src/template.cpp)\<close>

text \<open>
  \<^verbatim>\<open>template_dfa\<close> breaks a template text into a character vector. The first
  element of the result is HTML, the next is R code, and they continue alternating.
  The scanner is a deterministic automaton over the bytes of the text; a piece ends
  where \<^verbatim>\<open>{{\<close> is read in HTML or \<^verbatim>\<open>}}\<close> is read in code.
\<close>

subsection \<open>R values\<close>

text \<open>
  A CHARSXP is a byte string, or the missing string \<^verbatim>\<open>NA_STRING\<close>. A STRSXP
  (character vector) is a vector of CHARSXPs. A CHARSXP holds fewer than \<open>2^31\<close> bytes,
  so none of the C integers of the scanner (\<^verbatim>\<open>int\<close>, \<^verbatim>\<open>R_xlen_t\<close>) can wrap;
  they are modelled as unbounded integers.
\<close>

datatype charsxp = NA_STRING | CharSXP string

type_synonym strsxp = "charsxp list"

text \<open>\<^verbatim>\<open>CHAR(x)\<close>: the bytes of a CHARSXP; those of \<^verbatim>\<open>NA_STRING\<close> are "NA".\<close>

fun CHAR_sxp :: "charsxp \<Rightarrow> string" where
  "CHAR_sxp NA_STRING = ''NA''"
| "CHAR_sxp (CharSXP s) = s"

text \<open>\<^verbatim>\<open>R_BlankString\<close>, with which \<^verbatim>\<open>Rf_allocVector(STRSXP, n)\<close> fills a new vector.\<close>

definition R_BlankString :: charsxp where
  "R_BlankString = CharSXP []"

definition Rf_allocVector_STRSXP :: "nat \<Rightarrow> strsxp" where
  "Rf_allocVector_STRSXP n = replicate n R_BlankString"

text \<open>
  \<^verbatim>\<open>Rf_lengthgets(x, len)\<close>: a copy of \<open>x\<close> of length \<open>len\<close>, cut or filled up
  with \<^verbatim>\<open>NA_STRING\<close>.
\<close>

definition Rf_lengthgets :: "strsxp \<Rightarrow> int \<Rightarrow> strsxp" where
  "Rf_lengthgets x len = take (nat len) x @ replicate (nat len - length x) NA_STRING"

text \<open>\<^verbatim>\<open>SET_STRING_ELT(x, i, val)\<close>, for an index inside the vector.\<close>

definition SET_STRING_ELT :: "strsxp \<Rightarrow> int \<Rightarrow> charsxp \<Rightarrow> strsxp" where
  "SET_STRING_ELT x i val = x[nat i := val]"

text \<open>\<^verbatim>\<open>SETLENGTH(x, n)\<close> shortens a vector to its first \<open>n\<close> elements.\<close>

definition SETLENGTH :: "strsxp \<Rightarrow> int \<Rightarrow> strsxp" where
  "SETLENGTH x n = take (nat n) x"

text \<open>
  \<^verbatim>\<open>Rf_mkCharLenCE(input + start, n, CE_UTF8)\<close>: the CHARSXP of the \<open>n\<close> bytes of
  \<open>input\<close> from offset \<open>start\<close> on.
\<close>

definition Rf_mkCharLenCE :: "string \<Rightarrow> int \<Rightarrow> int \<Rightarrow> charsxp" where
  "Rf_mkCharLenCE input start n = CharSXP (take (nat n) (drop (nat start) input))"

subsection \<open>The growable vector of pieces\<close>

text \<open>
  \<^verbatim>\<open>str_sxp_set(x, i, val)\<close>: store \<open>val\<close> at index \<open>i\<close>, doubling the length of
  the vector first when \<open>i\<close> is not inside it.
\<close>

definition str_sxp_set :: "strsxp \<Rightarrow> int \<Rightarrow> charsxp \<Rightarrow> strsxp" where
  "str_sxp_set x i val =
     (let len = int (length x);
          x' = (if i \<ge> len then Rf_lengthgets x (len * 2) else x)
      in SET_STRING_ELT x' i val)"

subsection \<open>The automaton\<close>

datatype State =
    html
  | code
  | html_oneOpenBracket
  | code_oneCloseBracket
  | code_string1
  | code_string1_backslash
  | code_string2
  | code_string2_backslash
  | code_backtick
  | code_backtick_backslash
  | code_percentOp
  | code_comment
  | code_comment_oneCloseBracket

text \<open>The local variables of \<^verbatim>\<open>template_dfa\<close> that the loop changes.\<close>

record scanner =
  state :: State
  pieceStartIdx :: int
  pieces :: strsxp
  pieces_num :: int

text \<open>
  The block that ends a piece at the second bracket, at index \<open>i\<close>; the source has it
  three times, with the next state \<open>st\<close>:
  \<^verbatim>\<open>
  state = st;
  str = PROTECT(Rf_mkCharLenCE(input + pieceStartIdx, i - pieceStartIdx - 1, CE_UTF8));
  REPROTECT(pieces = str_sxp_set(pieces, pieces_num++, str), pieces_idx);
  UNPROTECT(1);
  pieceStartIdx = i + 1;
  \<close>
\<close>

definition end_piece :: "string \<Rightarrow> int \<Rightarrow> State \<Rightarrow> scanner \<Rightarrow> scanner" where
  "end_piece input i st s =
     (let str = Rf_mkCharLenCE input (pieceStartIdx s) (i - pieceStartIdx s - 1)
      in \<lparr> state = st,
           pieceStartIdx = i + 1,
           pieces = str_sxp_set (pieces s) (pieces_num s) str,
           pieces_num = pieces_num s + 1 \<rparr>)"

text \<open>The body of the loop: the switch on the state, for the byte \<open>c\<close> at index \<open>i\<close>.\<close>

definition dfa_step :: "string \<Rightarrow> int \<Rightarrow> scanner \<Rightarrow> scanner" where
  "dfa_step input i s =
     (let c = input ! nat i in
      case state s of
        html \<Rightarrow>
          (if c = CHR ''{'' then s\<lparr>state := html_oneOpenBracket\<rparr> else s)
      | html_oneOpenBracket \<Rightarrow>
          (if c = CHR ''{'' then end_piece input i code s else s\<lparr>state := html\<rparr>)
      | code \<Rightarrow>
          (if c = CHR ''}'' then s\<lparr>state := code_oneCloseBracket\<rparr>
           else if c = CHR 0x27 then s\<lparr>state := code_string1\<rparr>
           else if c = CHR 0x22 then s\<lparr>state := code_string2\<rparr>
           else if c = CHR 0x60 then s\<lparr>state := code_backtick\<rparr>
           else if c = CHR ''%'' then s\<lparr>state := code_percentOp\<rparr>
           else if c = CHR ''#'' then s\<lparr>state := code_comment\<rparr>
           else s)
      | code_oneCloseBracket \<Rightarrow>
          (if c = CHR ''}'' then end_piece input i html s else s\<lparr>state := code\<rparr>)
      | code_string1 \<Rightarrow>
          (if c = CHR 0x5C then s\<lparr>state := code_string1_backslash\<rparr>
           else if c = CHR 0x27 then s\<lparr>state := code\<rparr>
           else s)
      | code_string1_backslash \<Rightarrow> s\<lparr>state := code_string1\<rparr>
      | code_string2 \<Rightarrow>
          (if c = CHR 0x5C then s\<lparr>state := code_string2_backslash\<rparr>
           else if c = CHR 0x22 then s\<lparr>state := code\<rparr>
           else s)
      | code_string2_backslash \<Rightarrow> s\<lparr>state := code_string2\<rparr>
      | code_backtick \<Rightarrow>
          (if c = CHR 0x5C then s\<lparr>state := code_backtick_backslash\<rparr>
           else if c = CHR 0x60 then s\<lparr>state := code\<rparr>
           else s)
      | code_backtick_backslash \<Rightarrow> s\<lparr>state := code_backtick\<rparr>
      | code_percentOp \<Rightarrow>
          (if c = CHR ''%'' then s\<lparr>state := code\<rparr> else s)
      | code_comment \<Rightarrow>
          (if c = CHR ''}'' then s\<lparr>state := code_comment_oneCloseBracket\<rparr>
           else if c = CHR 0x0A then s\<lparr>state := code\<rparr>
           else s)
      | code_comment_oneCloseBracket \<Rightarrow>
          (if c = CHR ''}'' then end_piece input i html s else s\<lparr>state := code\<rparr>))"

text \<open>
  \<^verbatim>\<open>for (R_xlen_t i=0; i < len; i++) { c = input[i]; switch (state) ... }\<close>,
  from index \<open>i\<close> on.
\<close>

function dfa_loop :: "string \<Rightarrow> int \<Rightarrow> int \<Rightarrow> scanner \<Rightarrow> scanner" where
  "dfa_loop input len i s =
     (if i < len then dfa_loop input len (i + 1) (dfa_step input i s) else s)"
  by pat_completeness auto
termination
  by (relation "measure (\<lambda>(input, len, i, s). nat (len - i))") auto

declare dfa_loop.simps [simp del]

text \<open>The variables as the loop finds them.\<close>

definition init_scanner :: scanner where
  "init_scanner =
     \<lparr> state = html, pieceStartIdx = 0,
       pieces = Rf_allocVector_STRSXP 10, pieces_num = 0 \<rparr>"

datatype error =
    InvalidInput      \<comment> \<open>"Input HTML must be a character vector of length 1"\<close>
  | UnterminatedCode  \<comment> \<open>"HTML template did not end in html state (missing closing "}}")."\<close>

definition template_dfa :: "strsxp \<Rightarrow> error + strsxp" where
  "template_dfa x_sxp =
     (if length x_sxp \<noteq> 1 then Inl InvalidInput
      else
        let input = CHAR_sxp (x_sxp ! 0);
            len = int (length input);
            s = dfa_loop input len 0 init_scanner
        in if \<not> (state s = html \<or> state s = html_oneOpenBracket) then Inl UnterminatedCode
           else
             let str = Rf_mkCharLenCE input (pieceStartIdx s) (len - pieceStartIdx s);
                 ps = str_sxp_set (pieces s) (pieces_num s) str;
                 n = pieces_num s + 1
             in Inr (if n < int (length ps) then SETLENGTH ps n else ps))"

text \<open>The scanner once the loop has read the whole text.\<close>

definition final_scanner :: "string \<Rightarrow> scanner" where
  "final_scanner input = dfa_loop input (int (length input)) 0 init_scanner"

text \<open>
  The scanner after the first \<open>k\<close> bytes have been read: the loop run up to index
  \<open>k\<close>. For \<open>k\<close> the length of the text this is \<open>final_scanner\<close>.
\<close>

definition scanner_at :: "string \<Rightarrow> nat \<Rightarrow> scanner" where
  "scanner_at input k = dfa_loop input (int k) 0 init_scanner"

subsection \<open>Notions of the specification\<close>

text \<open>
  The kind of a piece is not stored; it is given by the position in the result: the
  first element is HTML (markup), the next is R code, and they continue alternating.
\<close>

datatype kind = Markup | Code

definition piece_kind :: "nat \<Rightarrow> kind" where
  "piece_kind k = (if even k then Markup else Code)"

text \<open>
  The document that a sequence of piece texts stands for: the texts in order, with
  \<^verbatim>\<open>{{\<close> put back after a markup piece that a code piece follows and \<^verbatim>\<open>}}\<close>
  after a code piece.
\<close>

fun reassemble :: "string list \<Rightarrow> string" where
  "reassemble [] = []"
| "reassemble [m] = m"
| "reassemble (m # c # rest) = m @ ''{{'' @ c @ ''}}'' @ reassemble rest"

text \<open>\<open>occurs pat xs\<close>: the bytes \<open>pat\<close> occur in \<open>xs\<close>, at some offset.\<close>

fun occurs :: "string \<Rightarrow> string \<Rightarrow> bool" where
  "occurs pat [] = (pat = [])"
| "occurs pat (x # xs) = (take (length pat) (x # xs) = pat \<or> occurs pat xs)"


text \<open>The escape state of each of the three quoted regions.\<close>

definition escape_of :: "State \<Rightarrow> State option" where
  "escape_of st =
     (if st = code_string1 then Some code_string1_backslash
      else if st = code_string2 then Some code_string2_backslash
      else if st = code_backtick then Some code_backtick_backslash
      else None)"

subsection \<open>Notions of the proofs\<close>

text \<open>The same for pieces that have all been ended: each is followed by its delimiter.\<close>

fun delimited :: "string list \<Rightarrow> string" where
  "delimited [] = []"
| "delimited [m] = m @ ''{{''"
| "delimited (m # c # rest) = m @ ''{{'' @ c @ ''}}'' @ delimited rest"

text \<open>The pieces stored so far: the first \<open>pieces_num\<close> elements of the vector.\<close>

definition emitted :: "scanner \<Rightarrow> strsxp" where
  "emitted s = take (nat (pieces_num s)) (pieces s)"

text \<open>The two states in which the scanner is reading HTML.\<close>

definition in_html :: "State \<Rightarrow> bool" where
  "in_html st \<longleftrightarrow> st = html \<or> st = html_oneOpenBracket"

text \<open>
  The invariant of the loop before the byte at index \<open>i\<close> is read: the start of the
  current piece is inside the text read so far; the vector has room for growing; the
  stored pieces are proper strings and, with their delimiters, make up the text before
  the start of the current piece; their number is even exactly in HTML; and in a state
  that has seen one bracket, that bracket is the previous byte and belongs to the
  current piece.
\<close>

definition scan_inv :: "string \<Rightarrow> int \<Rightarrow> scanner \<Rightarrow> bool" where
  "scan_inv input i s \<longleftrightarrow>
     0 \<le> pieceStartIdx s \<and> pieceStartIdx s \<le> i \<and>
     0 \<le> pieces_num s \<and> pieces_num s \<le> int (length (pieces s)) \<and> 0 < length (pieces s) \<and>
     emitted s = map CharSXP (map CHAR_sxp (emitted s)) \<and>
     delimited (map CHAR_sxp (emitted s)) = take (nat (pieceStartIdx s)) input \<and>
     (even (length (emitted s)) \<longleftrightarrow> in_html (state s)) \<and>
     (state s = html_oneOpenBracket \<longrightarrow>
        pieceStartIdx s < i \<and> input ! nat (i - 1) = CHR ''{'') \<and>
     (state s = code_oneCloseBracket \<or> state s = code_comment_oneCloseBracket \<longrightarrow>
        pieceStartIdx s < i \<and> input ! nat (i - 1) = CHR ''}'')"

text \<open>
  The invariant of the loop for a text without \<^verbatim>\<open>{{\<close>: no piece has been ended and
  the scanner is in HTML; after one \<^verbatim>\<open>{\<close>, that bracket is the previous byte.
\<close>

definition lit_inv :: "string \<Rightarrow> int \<Rightarrow> scanner \<Rightarrow> bool" where
  "lit_inv input i s \<longleftrightarrow>
     pieces_num s = 0 \<and> pieceStartIdx s = 0 \<and> in_html (state s) \<and>
     (state s = html_oneOpenBracket \<longrightarrow> 0 < i \<and> input ! nat (i - 1) = CHR ''{'')"

section \<open>Properties of the scanner\<close>

subsection \<open>Putting pieces together\<close>

lemma delimited_snoc_even:
  "even (length ps) \<Longrightarrow> delimited (ps @ [m]) = delimited ps @ m @ ''{{''"
  by (induction ps rule: delimited.induct) auto

lemma delimited_snoc_odd:
  "odd (length ps) \<Longrightarrow> delimited (ps @ [c]) = delimited ps @ c @ ''}}''"
  by (induction ps rule: delimited.induct) auto

lemma reassemble_snoc:
  "even (length ps) \<Longrightarrow> reassemble (ps @ [m]) = delimited ps @ m"
  by (induction ps rule: delimited.induct) auto

subsection \<open>The vector of pieces grows as needed\<close>

lemma length_str_sxp_set:
  assumes "0 \<le> n" "n \<le> int (length x)" "0 < length x"
  shows "n < int (length (str_sxp_set x n v))"
  using assms by (auto simp: str_sxp_set_def Rf_lengthgets_def SET_STRING_ELT_def Let_def)

lemma take_str_sxp_set:
  assumes "0 \<le> n" "n \<le> int (length x)" "0 < length x"
  shows "take (nat (n + 1)) (str_sxp_set x n v) = take (nat n) x @ [v]"
proof (cases "n < int (length x)")
  case True
  then have "nat n < length x" using assms by linarith
  then have "take (Suc (nat n)) (x[nat n := v]) = take (nat n) x @ [v]"
    by (simp add: take_Suc_conv_app_nth)
  moreover have "nat (n + 1) = Suc (nat n)" using assms by simp
  ultimately show ?thesis using True
    by (simp add: str_sxp_set_def SET_STRING_ELT_def Let_def)
next
  case False
  then have n: "nat n = length x" using assms by linarith
  have "str_sxp_set x n v = (x @ replicate (length x) NA_STRING)[length x := v]"
    using False n by (simp add: str_sxp_set_def SET_STRING_ELT_def Rf_lengthgets_def Let_def nat_mult_distrib)
  moreover have "replicate (length x) NA_STRING = NA_STRING # replicate (length x - 1) NA_STRING"
    using assms(3) by (cases "length x") simp_all
  moreover have "nat (n + 1) = Suc (length x)" using assms n by simp
  ultimately show ?thesis using n by (simp add: list_update_append)
qed

subsection \<open>The invariant of the loop\<close>

lemma take_slice:
  assumes "p < i" "i < length input" "input ! (i - 1) = a" "input ! i = b"
  shows "take p input @ take (i - p - 1) (drop p input) @ [a, b] = take (Suc i) input"
proof -
  obtain j where i: "i = Suc j" using assms(1) by (cases i) auto
  have "take p input @ take (j - p) (drop p input) = take j input"
    using assms(1) i by (metis add_diff_inverse_nat less_Suc_eq not_less_eq take_add)
  moreover have "take (Suc (Suc j)) input = take j input @ [input ! j, input ! Suc j]"
    using assms(2) i by (simp add: take_Suc_conv_app_nth)
  ultimately show ?thesis using assms i by simp
qed

lemma emitted_end_piece:
  assumes "0 \<le> pieces_num s" "pieces_num s \<le> int (length (pieces s))" "0 < length (pieces s)"
  shows "emitted (end_piece input i st s) =
         emitted s @ [Rf_mkCharLenCE input (pieceStartIdx s) (i - pieceStartIdx s - 1)]"
  using take_str_sxp_set [OF assms] by (simp add: emitted_def end_piece_def Let_def)

lemma slice_int:
  assumes "0 \<le> p" "p < i" "i < int (length input)"
    and "input ! nat (i - 1) = a" "input ! nat i = b"
  shows "take (nat p) input @ take (nat (i - p - 1)) (drop (nat p) input) @ [a, b]
         = take (nat (i + 1)) input"
proof -
  have "nat p < nat i" "nat i < length input" using assms by linarith+
  moreover have "nat (i - 1) = nat i - 1" "nat (i - p - 1) = nat i - nat p - 1"
    "nat (i + 1) = Suc (nat i)" using assms by linarith+
  ultimately show ?thesis using take_slice [of "nat p" "nat i" input a b] assms by simp
qed

lemma scan_inv_end_piece:
  assumes inv: "scan_inv input i s" and i: "i < int (length input)"
    and prev: "pieceStartIdx s < i" "input ! nat (i - 1) = a" and cur: "input ! nat i = a"
    and a: "[a, a] = (if in_html (state s) then ''{{'' else ''}}'')"
    and st: "in_html st \<longleftrightarrow> \<not> in_html (state s)" "st = html \<or> st = code"
  shows "scan_inv input (i + 1) (end_piece input i st s)"
proof -
  let ?s' = "end_piece input i st s"
  let ?t = "take (nat (i - pieceStartIdx s - 1)) (drop (nat (pieceStartIdx s)) input)"
  have em: "emitted ?s' = emitted s @ [CharSXP ?t]"
    using inv emitted_end_piece [of s input i st] by (simp add: scan_inv_def Rf_mkCharLenCE_def)
  have sl: "take (nat (pieceStartIdx s)) input @ ?t @ [a, a] = take (nat (i + 1)) input"
    using slice_int [of "pieceStartIdx s" i input a a] inv i prev cur by (simp add: scan_inv_def)
  have del: "delimited (map CHAR_sxp (emitted ?s')) = take (nat (pieceStartIdx ?s')) input"
  proof (cases "in_html (state s)")
    case True
    then have "even (length (map CHAR_sxp (emitted s)))" using inv by (simp add: scan_inv_def)
    then have "delimited (map CHAR_sxp (emitted s) @ [?t]) = delimited (map CHAR_sxp (emitted s)) @ ?t @ ''{{''"
      by (rule delimited_snoc_even)
    then show ?thesis using em sl a True inv by (simp add: scan_inv_def end_piece_def Let_def)
  next
    case False
    then have "odd (length (map CHAR_sxp (emitted s)))" using inv by (simp add: scan_inv_def)
    then have "delimited (map CHAR_sxp (emitted s) @ [?t]) = delimited (map CHAR_sxp (emitted s)) @ ?t @ ''}}''"
      by (rule delimited_snoc_odd)
    then show ?thesis using em sl a False inv by (simp add: scan_inv_def end_piece_def Let_def)
  qed
  have r: "0 \<le> pieces_num s" "pieces_num s \<le> int (length (pieces s))" "0 < length (pieces s)"
    using inv by (simp_all add: scan_inv_def)
  have "pieces_num s < int (length (pieces ?s'))"
    using length_str_sxp_set [OF r] by (simp add: end_piece_def Let_def)
  then have len: "pieces_num ?s' \<le> int (length (pieces ?s'))" "0 < length (pieces ?s')"
    using r(1) by (auto simp: end_piece_def Let_def)
  have par: "even (length (emitted ?s')) \<longleftrightarrow> in_html (state ?s')"
    using em st inv by (simp add: scan_inv_def end_piece_def Let_def)
  have "emitted ?s' = map CharSXP (map CHAR_sxp (emitted ?s'))"
    using em inv by (simp add: scan_inv_def)
  moreover have f: "state ?s' = st" "pieceStartIdx ?s' = i + 1" "pieces_num ?s' = pieces_num s + 1"
    by (simp_all add: end_piece_def Let_def)
  moreover have "0 \<le> pieceStartIdx s" "pieceStartIdx s \<le> i" "0 \<le> pieces_num s"
    using inv by (simp_all add: scan_inv_def)
  ultimately show ?thesis using del len par st(2)
    unfolding scan_inv_def [of input "i + 1"] by auto
qed

text \<open>Where a piece is ended, the bytes taken for it lie inside the text.\<close>

lemma end_piece_slice_in_range:
  assumes "scan_inv input i s" "i < int (length input)"
    and "state s = html_oneOpenBracket \<or> state s = code_oneCloseBracket \<or>
         state s = code_comment_oneCloseBracket"
  shows "0 \<le> pieceStartIdx s \<and> 0 \<le> i - pieceStartIdx s - 1 \<and>
         pieceStartIdx s + (i - pieceStartIdx s - 1) \<le> int (length input)"
  using assms by (auto simp: scan_inv_def)

lemma scan_inv_state:
  assumes inv: "scan_inv input i s"
    and "in_html st \<longleftrightarrow> in_html (state s)"
    and "st = html_oneOpenBracket \<Longrightarrow> input ! nat i = CHR ''{''"
    and "st = code_oneCloseBracket \<or> st = code_comment_oneCloseBracket \<Longrightarrow> input ! nat i = CHR ''}''"
  shows "scan_inv input (i + 1) (s\<lparr>state := st\<rparr>)"
proof -
  have "emitted (s\<lparr>state := st\<rparr>) = emitted s" by (simp add: emitted_def)
  then show ?thesis using assms unfolding scan_inv_def by auto
qed

lemma scan_inv_stay:
  assumes inv: "scan_inv input i s"
    and "state s \<noteq> html_oneOpenBracket" "state s \<noteq> code_oneCloseBracket"
      "state s \<noteq> code_comment_oneCloseBracket"
  shows "scan_inv input (i + 1) s"
  using scan_inv_state [of input i s "state s"] assms by simp

lemma scan_inv_step:
  assumes inv: "scan_inv input i s" and i: "i < int (length input)"
  shows "scan_inv input (i + 1) (dfa_step input i s)"
proof (cases "state s")
  case html
  then show ?thesis using inv
    by (auto simp: dfa_step_def Let_def in_html_def intro: scan_inv_state scan_inv_stay)
next
  case code
  then show ?thesis using inv
    by (auto simp: dfa_step_def Let_def in_html_def intro: scan_inv_state scan_inv_stay)
next
  case html_oneOpenBracket
  then have "pieceStartIdx s < i" "input ! nat (i - 1) = CHR ''{''"
    using inv by (simp_all add: scan_inv_def)
  then show ?thesis using html_oneOpenBracket inv i
    by (auto simp: dfa_step_def Let_def in_html_def intro: scan_inv_state scan_inv_end_piece)
next
  case code_oneCloseBracket
  then have "pieceStartIdx s < i" "input ! nat (i - 1) = CHR ''}''"
    using inv by (simp_all add: scan_inv_def)
  then show ?thesis using code_oneCloseBracket inv i
    by (auto simp: dfa_step_def Let_def in_html_def intro: scan_inv_state scan_inv_end_piece)
next
  case code_string1
  then show ?thesis using inv
    by (auto simp: dfa_step_def Let_def in_html_def intro: scan_inv_state scan_inv_stay)
next
  case code_string1_backslash
  then show ?thesis using inv
    by (auto simp: dfa_step_def Let_def in_html_def intro: scan_inv_state scan_inv_stay)
next
  case code_string2
  then show ?thesis using inv
    by (auto simp: dfa_step_def Let_def in_html_def intro: scan_inv_state scan_inv_stay)
next
  case code_string2_backslash
  then show ?thesis using inv
    by (auto simp: dfa_step_def Let_def in_html_def intro: scan_inv_state scan_inv_stay)
next
  case code_backtick
  then show ?thesis using inv
    by (auto simp: dfa_step_def Let_def in_html_def intro: scan_inv_state scan_inv_stay)
next
  case code_backtick_backslash
  then show ?thesis using inv
    by (auto simp: dfa_step_def Let_def in_html_def intro: scan_inv_state scan_inv_stay)
next
  case code_percentOp
  then show ?thesis using inv
    by (auto simp: dfa_step_def Let_def in_html_def intro: scan_inv_state scan_inv_stay)
next
  case code_comment
  then show ?thesis using inv
    by (auto simp: dfa_step_def Let_def in_html_def intro: scan_inv_state scan_inv_stay)
next
  case code_comment_oneCloseBracket
  then have "pieceStartIdx s < i" "input ! nat (i - 1) = CHR ''}''"
    using inv by (simp_all add: scan_inv_def)
  then show ?thesis using code_comment_oneCloseBracket inv i
    by (auto simp: dfa_step_def Let_def in_html_def intro: scan_inv_state scan_inv_end_piece)
qed

lemma scan_inv_loop:
  "scan_inv input i s \<Longrightarrow> len \<le> int (length input) \<Longrightarrow>
   scan_inv input (max i len) (dfa_loop input len i s)"
proof (induction input len i s rule: dfa_loop.induct)
  case (1 input len i s)
  show ?case
  proof (cases "i < len")
    case True
    then have "scan_inv input (i + 1) (dfa_step input i s)"
      using "1.prems" by (intro scan_inv_step) simp_all
    then have "scan_inv input (max (i + 1) len) (dfa_loop input len (i + 1) (dfa_step input i s))"
      using "1.IH" True "1.prems"(2) by simp
    moreover have "max (i + 1) len = max i len" using True by simp
    ultimately show ?thesis using True by (simp add: dfa_loop.simps [of input len i])
  next
    case False
    then show ?thesis using "1.prems"(1) by (simp add: dfa_loop.simps [of input len i] max_def)
  qed
qed

lemma scan_inv_init: "scan_inv input 0 init_scanner"
  by (simp add: scan_inv_def init_scanner_def emitted_def Rf_allocVector_STRSXP_def in_html_def)

lemma scan_inv_final: "scan_inv input (int (length input)) (final_scanner input)"
  using scan_inv_loop [OF scan_inv_init, of "int (length input)" input]
  by (simp add: final_scanner_def)

subsection \<open>The result of a scan\<close>

lemma template_dfa_result:
  "template_dfa [x] =
     (let input = CHAR_sxp x; s = final_scanner input
      in if in_html (state s)
         then Inr (emitted s @ [CharSXP (drop (nat (pieceStartIdx s)) input)])
         else Inl UnterminatedCode)"
proof -
  define input where "input = CHAR_sxp x"
  define s where "s = final_scanner input"
  define str where "str = Rf_mkCharLenCE input (pieceStartIdx s) (int (length input) - pieceStartIdx s)"
  define ps where "ps = str_sxp_set (pieces s) (pieces_num s) str"
  have inv: "scan_inv input (int (length input)) s"
    unfolding s_def by (rule scan_inv_final)
  then have r: "0 \<le> pieces_num s" "pieces_num s \<le> int (length (pieces s))" "0 < length (pieces s)"
    and p: "0 \<le> pieceStartIdx s" "pieceStartIdx s \<le> int (length input)"
    by (simp_all add: scan_inv_def)
  have "nat (int (length input) - pieceStartIdx s) = length input - nat (pieceStartIdx s)"
    using p by linarith
  then have str: "str = CharSXP (drop (nat (pieceStartIdx s)) input)"
    by (simp add: str_def Rf_mkCharLenCE_def)
  have tk: "take (nat (pieces_num s + 1)) ps = emitted s @ [str]"
    unfolding ps_def emitted_def by (rule take_str_sxp_set [OF r])
  have "pieces_num s < int (length ps)"
    unfolding ps_def by (rule length_str_sxp_set [OF r])
  then have "(if pieces_num s + 1 < int (length ps) then SETLENGTH ps (pieces_num s + 1) else ps)
             = take (nat (pieces_num s + 1)) ps"
    by (simp add: SETLENGTH_def)
  then have "(if pieces_num s + 1 < int (length ps) then SETLENGTH ps (pieces_num s + 1) else ps)
             = emitted s @ [CharSXP (drop (nat (pieceStartIdx s)) input)]"
    using tk str by simp
  then show ?thesis
    by (auto simp add: template_dfa_def Let_def in_html_def final_scanner_def [symmetric]
        input_def [symmetric] s_def [symmetric] str_def [symmetric] ps_def [symmetric]
        split: if_splits)
qed

lemma template_dfa_Inr:
  assumes "template_dfa [x] = Inr ps"
  shows "in_html (state (final_scanner (CHAR_sxp x)))"
    and "ps = emitted (final_scanner (CHAR_sxp x)) @
              [CharSXP (drop (nat (pieceStartIdx (final_scanner (CHAR_sxp x)))) (CHAR_sxp x))]"
  using assms by (simp_all add: template_dfa_result Let_def split: if_splits)

subsection \<open>The scanner after a prefix of the text\<close>

lemma dfa_loop_last:
  "i \<le> k \<Longrightarrow> dfa_loop input (k + 1) i s = dfa_step input k (dfa_loop input k i s)"
proof (induction input k i s rule: dfa_loop.induct)
  case (1 input len i s)
  show ?case
  proof (cases "i < len")
    case True
    then show ?thesis using "1.IH"
      by (simp add: dfa_loop.simps [of input len i] dfa_loop.simps [of input "len + 1" i])
  next
    case False
    then have "i = len" using "1.prems" by simp
    then show ?thesis
      by (simp add: dfa_loop.simps [of input len len] dfa_loop.simps [of input "len + 1" len]
          dfa_loop.simps [of input "len + 1" "len + 1"])
  qed
qed

lemma scanner_at_0: "scanner_at input 0 = init_scanner"
  by (simp add: scanner_at_def dfa_loop.simps)

lemma scanner_at_Suc: "scanner_at input (Suc k) = dfa_step input (int k) (scanner_at input k)"
  using dfa_loop_last [of 0 "int k" input init_scanner]
  by (simp add: scanner_at_def add.commute)

lemma final_scanner_at: "final_scanner input = scanner_at input (length input)"
  by (simp add: final_scanner_def scanner_at_def)

lemma occurs_iff: "occurs pat xs \<longleftrightarrow> (\<exists>u v. xs = u @ pat @ v)"
proof (induction xs)
  case Nil
  then show ?case by auto
next
  case (Cons x xs)
  have "take (length pat) (x # xs) = pat \<longleftrightarrow> (\<exists>v. x # xs = pat @ v)"
    by (metis append_eq_conv_conj append_take_drop_id)
  moreover have "(\<exists>u v. x # xs = u @ pat @ v) \<longleftrightarrow>
                 (\<exists>v. x # xs = pat @ v) \<or> (\<exists>u v. xs = u @ pat @ v)"
    by (auto simp: Cons_eq_append_conv) 
  ultimately show ?case using Cons.IH by simp
qed

lemma occurs_pair:
  assumes "Suc k < length xs" "xs ! k = a" "xs ! Suc k = b"
  shows "occurs [a, b] xs"
proof -
  have "xs = take k xs @ [a, b] @ drop (Suc (Suc k)) xs"
    using assms by (metis Cons_nth_drop_Suc Suc_lessD append_Cons append_Nil append_take_drop_id)
  then show ?thesis unfolding occurs_iff by blast
qed

subsection \<open>Texts without an opening delimiter\<close>

lemma lit_inv_step:
  assumes inv: "lit_inv input i s" and i: "0 \<le> i" "i < int (length input)"
    and no: "\<not> occurs ''{{'' input"
  shows "lit_inv input (i + 1) (dfa_step input i s)"
proof (cases "state s = html")
  case True
  then show ?thesis using inv i by (auto simp: lit_inv_def dfa_step_def Let_def in_html_def)
next
  case False
  then have st: "state s = html_oneOpenBracket" and prev: "0 < i" "input ! nat (i - 1) = CHR ''{''"
    using inv by (auto simp: lit_inv_def in_html_def)
  have "input ! nat i \<noteq> CHR ''{''"
  proof
    assume "input ! nat i = CHR ''{''"
    moreover have "Suc (nat (i - 1)) = nat i" "Suc (nat (i - 1)) < length input"
      using prev(1) i by linarith+
    ultimately have "occurs ''{{'' input"
      using occurs_pair [of "nat (i - 1)" input "CHR ''{''" "CHR ''{''"] prev(2) by simp
    then show False using no by simp
  qed
  then show ?thesis using inv st by (simp add: lit_inv_def dfa_step_def Let_def in_html_def)
qed

lemma lit_inv_loop:
  "lit_inv input i s \<Longrightarrow> 0 \<le> i \<Longrightarrow> len \<le> int (length input) \<Longrightarrow> \<not> occurs ''{{'' input \<Longrightarrow>
   lit_inv input (max i len) (dfa_loop input len i s)"
proof (induction input len i s rule: dfa_loop.induct)
  case (1 input len i s)
  show ?case
  proof (cases "i < len")
    case True
    then have "lit_inv input (i + 1) (dfa_step input i s)"
      using "1.prems" by (intro lit_inv_step) simp_all
    then have "lit_inv input (max (i + 1) len) (dfa_loop input len (i + 1) (dfa_step input i s))"
      using "1.IH" True "1.prems" by simp
    moreover have "max (i + 1) len = max i len" using True by simp
    ultimately show ?thesis using True by (simp add: dfa_loop.simps [of input len i])
  next
    case False
    then show ?thesis using "1.prems"(1) by (simp add: dfa_loop.simps [of input len i] max_def)
  qed
qed

lemma lit_inv_init: "lit_inv input 0 init_scanner"
  by (simp add: lit_inv_def init_scanner_def in_html_def)

section \<open>The claims\<close>

text \<open>
  C1. For every document on which the scan succeeds, the texts of the returned pieces,
  put together in order with \<^verbatim>\<open>{{\<close> between a markup piece and the code piece after
  it and \<^verbatim>\<open>}}\<close> between a code piece and the markup piece after it, are the document,
  byte for byte. (No returned piece is the missing string.)
\<close>

theorem C1_roundtrip:
  assumes "template_dfa [x] = Inr ps"
  shows "reassemble (map CHAR_sxp ps) = CHAR_sxp x \<and> NA_STRING \<notin> set ps"
proof -
  let ?s = "final_scanner (CHAR_sxp x)"
  have inv: "scan_inv (CHAR_sxp x) (int (length (CHAR_sxp x))) ?s"
    by (rule scan_inv_final)
  have ps: "ps = emitted ?s @ [CharSXP (drop (nat (pieceStartIdx ?s)) (CHAR_sxp x))]"
    and h: "in_html (state ?s)"
    using template_dfa_Inr [OF assms] by simp_all
  have ev: "even (length (map CHAR_sxp (emitted ?s)))"
    using inv h by (simp add: scan_inv_def)
  have "reassemble (map CHAR_sxp ps)
        = reassemble (map CHAR_sxp (emitted ?s) @ [drop (nat (pieceStartIdx ?s)) (CHAR_sxp x)])"
    by (subst ps) simp
  also have "\<dots> = delimited (map CHAR_sxp (emitted ?s)) @ drop (nat (pieceStartIdx ?s)) (CHAR_sxp x)"
    using ev by (rule reassemble_snoc)
  also have "\<dots> = CHAR_sxp x"
    using inv by (simp add: scan_inv_def)
  finally have rt: "reassemble (map CHAR_sxp ps) = CHAR_sxp x" .
  have "emitted ?s = map CharSXP (map CHAR_sxp (emitted ?s))"
    using inv by (simp add: scan_inv_def)
  then have "NA_STRING \<notin> set (emitted ?s)"
    by (metis (no_types, lifting) charsxp.distinct(1) imageE list.set_map)
  then have "NA_STRING \<notin> set ps" by (subst ps) simp
  with rt show ?thesis by simp
qed

theorem C1_roundtrip_witness:
  "template_dfa [CharSXP ''a{{1}}b{{2}}c'']
     = Inr [CharSXP ''a'', CharSXP ''1'', CharSXP ''b'', CharSXP ''2'', CharSXP ''c''] \<and>
   reassemble [''a'', ''1'', ''b'', ''2'', ''c''] = ''a{{1}}b{{2}}c''"
proof -
  have h: "template_dfa [CharSXP ''a{{1}}b{{2}}c'']
     = Inr [CharSXP ''a'', CharSXP ''1'', CharSXP ''b'', CharSXP ''2'', CharSXP ''c'']"
    by code_simp
  from C1_roundtrip [OF h] show ?thesis using h by simp
qed

text \<open>
  C2. For every document on which the scan succeeds, the number of returned pieces is
  odd, so at least 1, and the first and the last piece are markup: kinds go by
  position, markup at the even indices (from 0) and code at the odd ones.
\<close>

theorem C2_alternation:
  assumes "template_dfa [x] = Inr ps"
  shows "odd (length ps) \<and> 1 \<le> length ps \<and>
         piece_kind 0 = Markup \<and> piece_kind (length ps - 1) = Markup"
proof -
  let ?s = "final_scanner (CHAR_sxp x)"
  have "scan_inv (CHAR_sxp x) (int (length (CHAR_sxp x))) ?s"
    by (rule scan_inv_final)
  moreover have "in_html (state ?s)" and "length ps = length (emitted ?s) + 1"
    using template_dfa_Inr [OF assms] by simp_all
  ultimately have "odd (length ps)" by (simp add: scan_inv_def)
  then show ?thesis by (auto simp: piece_kind_def elim: oddE)
qed

theorem C2_alternation_witness:
  "template_dfa [CharSXP ''a{{1}}b'']  = Inr [CharSXP ''a'', CharSXP ''1'', CharSXP ''b''] \<and>
   odd (length [CharSXP ''a'', CharSXP ''1'', CharSXP ''b'']) \<and>
   piece_kind (length [CharSXP ''a'', CharSXP ''1'', CharSXP ''b''] - 1) = Markup"
proof -
  have h: "template_dfa [CharSXP ''a{{1}}b''] = Inr [CharSXP ''a'', CharSXP ''1'', CharSXP ''b'']"
    by code_simp
  from C2_alternation [OF h] show ?thesis using h by simp
qed




text \<open>
  The two transitions of \<open>code_comment_oneCloseBracket\<close>: the byte \<^verbatim>\<open>}\<close> ends
  the code piece and enters \<open>html\<close>; any other byte takes the scanner to \<open>code\<close>.
\<close>

lemma dfa_step_comment_brace_brace:
  "state s = code_comment_oneCloseBracket \<Longrightarrow> input ! nat i = CHR ''}'' \<Longrightarrow>
   dfa_step input i s = end_piece input i html s"
  by (simp add: dfa_step_def)

lemma dfa_step_comment_brace_other:
  "state s = code_comment_oneCloseBracket \<Longrightarrow> input ! nat i \<noteq> CHR ''}'' \<Longrightarrow>
   dfa_step input i s = s\<lparr>state := code\<rparr>"
  by (simp add: dfa_step_def)

text \<open>
  C4. In the state \<open>code_comment_oneCloseBracket\<close> a byte other than \<^verbatim>\<open>}\<close> does
  not take the scanner back to \<open>code_comment\<close>. In the text \<^verbatim>\<open>{{#}x'}}\<close> the
  scanner is in that state after \<^verbatim>\<open>{{#}\<close>; the byte \<^verbatim>\<open>x\<close> takes it to
  \<open>code\<close>, so the apostrophe of the comment opens a string, the closing \<^verbatim>\<open>}}\<close>
  is read inside that string, and the scan fails.
\<close>

theorem C4_comment_brace_other_byte:
  "state (scanner_at (''{{#}x'' @ [CHR 0x27] @ ''}}'') 4) = code_comment_oneCloseBracket \<and>
   (''{{#}x'' @ [CHR 0x27] @ ''}}'') ! 4 = CHR ''x'' \<and>
   state (scanner_at (''{{#}x'' @ [CHR 0x27] @ ''}}'') 5) = code \<and>
   state (scanner_at (''{{#}x'' @ [CHR 0x27] @ ''}}'') 8) = code_string1 \<and>
   template_dfa [CharSXP (''{{#}x'' @ [CHR 0x27] @ ''}}'')] = Inl UnterminatedCode"
  by code_simp

text \<open>
  C5. For every document, the scan fails with \<open>UnterminatedCode\<close> exactly when the
  state after the last byte is neither \<open>html\<close> nor \<open>html_oneOpenBracket\<close>; a failed
  scan returns no pieces; and a single \<^verbatim>\<open>{\<close> at the end of the document is no
  error: the scan succeeds when the final state is \<open>html_oneOpenBracket\<close>, so when the
  last byte is a \<^verbatim>\<open>{\<close> read in \<open>html\<close>.
\<close>

theorem C5_unterminated:
  "(template_dfa [x] = Inl UnterminatedCode \<longleftrightarrow>
      \<not> (state (final_scanner (CHAR_sxp x)) = html \<or>
         state (final_scanner (CHAR_sxp x)) = html_oneOpenBracket)) \<and>
   (template_dfa [x] = Inl UnterminatedCode \<longrightarrow> (\<forall>ps. template_dfa [x] \<noteq> Inr ps)) \<and>
   (state (final_scanner (CHAR_sxp x)) = html_oneOpenBracket \<longrightarrow>
      (\<exists>ps. template_dfa [x] = Inr ps)) \<and>
   (CHAR_sxp x = d @ ''{'' \<and> state (scanner_at (CHAR_sxp x) (length d)) = html \<longrightarrow>
      (\<exists>ps. template_dfa [x] = Inr ps))"
proof -
  let ?f = "final_scanner (CHAR_sxp x)"
  have A: "template_dfa [x] = Inl UnterminatedCode \<longleftrightarrow>
           \<not> (state ?f = html \<or> state ?f = html_oneOpenBracket)"
    by (simp add: template_dfa_def final_scanner_def Let_def)
  have B: "\<exists>ps. template_dfa [x] = Inr ps"
    if "state ?f = html \<or> state ?f = html_oneOpenBracket"
    using that by (simp add: template_dfa_def final_scanner_def Let_def)
  have C: "state ?f = html_oneOpenBracket"
    if d: "CHAR_sxp x = d @ ''{''" and h: "state (scanner_at (CHAR_sxp x) (length d)) = html"
  proof -
    have "?f = scanner_at (CHAR_sxp x) (Suc (length d))"
      using d by (simp add: final_scanner_at)
    also have "\<dots> = dfa_step (CHAR_sxp x) (int (length d)) (scanner_at (CHAR_sxp x) (length d))"
      by (rule scanner_at_Suc)
    finally show ?thesis using h d by (simp add: dfa_step_def)
  qed
  from A B C show ?thesis by auto
qed

theorem C5_unterminated_witness:
  "state (final_scanner ''a{{b'') = code \<and>
   template_dfa [CharSXP ''a{{b''] = Inl UnterminatedCode \<and>
   state (scanner_at ''a{'' (length ''a'')) = html \<and>
   state (final_scanner ''a{'') = html_oneOpenBracket \<and>
   (\<exists>ps. template_dfa [CharSXP ''a{''] = Inr ps)"
proof -
  have a: "state (final_scanner ''a{{b'') = code" by code_simp
  have b: "state (final_scanner ''a{'') = html_oneOpenBracket" by code_simp
  have c: "state (scanner_at ''a{'' (length ''a'')) = html" by code_simp
  have "template_dfa [CharSXP ''a{{b''] = Inl UnterminatedCode"
    using C5_unterminated [of "CharSXP ''a{{b''"] a by simp
  moreover have "\<exists>ps. template_dfa [CharSXP ''a{''] = Inr ps"
    using C5_unterminated [of "CharSXP ''a{''" "''a''"] c by simp
  ultimately show ?thesis using a b c by simp
qed

text \<open>
  C6. For every input that is not exactly one text value (a character vector of a
  length other than 1), the scan fails with \<open>InvalidInput\<close>, whatever the vector
  holds: nothing is scanned and no piece is made.
\<close>

theorem C6_invalid_input:
  "length x_sxp \<noteq> 1 \<Longrightarrow> template_dfa x_sxp = Inl InvalidInput"
  by (simp add: template_dfa_def)

theorem C6_invalid_input_witness:
  "length [CharSXP ''a{{'', CharSXP ''b''] \<noteq> 1 \<and>
   template_dfa [CharSXP ''a{{'', CharSXP ''b''] = Inl InvalidInput"
  using C6_invalid_input [of "[CharSXP ''a{{'', CharSXP ''b'']"] by simp

text \<open>
  C7. For the input \<^verbatim>\<open>x{{ `}}` }}y\<close> the scan succeeds and returns the three pieces
  \<^verbatim>\<open>x\<close>, \<^verbatim>\<open> `}}` \<close> and \<^verbatim>\<open>y\<close>: the \<^verbatim>\<open>}}\<close> between the backticks does not end
  the code, the \<^verbatim>\<open>}}\<close> after them does.
\<close>

theorem C7_backtick_example:
  "template_dfa [CharSXP ''x{{ `}}` }}y''] = Inr [CharSXP ''x'', CharSXP '' `}}` '', CharSXP ''y'']"
  by code_simp

text \<open>
  C8. Let \<open>q\<close> be a single-quoted string, a double-quoted string or a backtick-quoted
  identifier, and \<open>e\<close> its escape state. In \<open>e\<close> every byte, whatever its value, takes
  the scanner back to \<open>q\<close> and changes nothing else. So for every document, when the
  scanner is in \<open>q\<close> and reads a backslash at index \<open>k\<close>, it is in \<open>e\<close> after the
  backslash, and after the next byte (a closing quote or any other) it is as it was
  before the backslash: the region has not ended.
\<close>

theorem C8_escape:
  assumes "escape_of q = Some e"
  shows "(state s = e \<longrightarrow> dfa_step input i s = s\<lparr>state := q\<rparr>) \<and>
         (Suc k < length input \<and> state (scanner_at input k) = q \<and> input ! k = CHR 0x5C
            \<longrightarrow> state (scanner_at input (Suc k)) = e \<and>
                scanner_at input (Suc (Suc k)) = scanner_at input k)"
proof -
  have qe: "q = code_string1 \<and> e = code_string1_backslash \<or>
            q = code_string2 \<and> e = code_string2_backslash \<or>
            q = code_backtick \<and> e = code_backtick_backslash"
    using assms by (auto simp: escape_of_def split: if_splits)
  have A: "dfa_step input i s = s\<lparr>state := q\<rparr>" if "state s = e" for i and s :: scanner
    using qe that by (auto simp: dfa_step_def Let_def)
  have B: "state (scanner_at input (Suc k)) = e \<and> scanner_at input (Suc (Suc k)) = scanner_at input k"
    if "state (scanner_at input k) = q" "input ! k = CHR 0x5C"
  proof -
    have "scanner_at input (Suc k) = (scanner_at input k)\<lparr>state := e\<rparr>"
      unfolding scanner_at_Suc [of input k] using qe that by (auto simp: dfa_step_def Let_def)
    moreover from this have "scanner_at input (Suc (Suc k)) = (scanner_at input k)\<lparr>state := q\<rparr>"
      unfolding scanner_at_Suc [of input "Suc k"] by (simp add: A)
    ultimately show ?thesis using that(1) by simp
  qed
  from A B show ?thesis by blast
qed

theorem C8_escape_witness:
  "escape_of code_string1 = Some code_string1_backslash \<and>
   Suc 3 < length (''{{'' @ [CHR 0x27, CHR 0x5C, CHR 0x27, CHR 0x27] @ ''}}'') \<and>
   state (scanner_at (''{{'' @ [CHR 0x27, CHR 0x5C, CHR 0x27, CHR 0x27] @ ''}}'') 3) = code_string1 \<and>
   (''{{'' @ [CHR 0x27, CHR 0x5C, CHR 0x27, CHR 0x27] @ ''}}'') ! 3 = CHR 0x5C \<and>
   (''{{'' @ [CHR 0x27, CHR 0x5C, CHR 0x27, CHR 0x27] @ ''}}'') ! Suc 3 = CHR 0x27 \<and>
   state (scanner_at (''{{'' @ [CHR 0x27, CHR 0x5C, CHR 0x27, CHR 0x27] @ ''}}'') (Suc 3))
     = code_string1_backslash \<and>
   dfa_step (''{{'' @ [CHR 0x27, CHR 0x5C, CHR 0x27, CHR 0x27] @ ''}}'') 4
     (scanner_at (''{{'' @ [CHR 0x27, CHR 0x5C, CHR 0x27, CHR 0x27] @ ''}}'') (Suc 3))
     = (scanner_at (''{{'' @ [CHR 0x27, CHR 0x5C, CHR 0x27, CHR 0x27] @ ''}}'') (Suc 3))
         \<lparr>state := code_string1\<rparr> \<and>
   scanner_at (''{{'' @ [CHR 0x27, CHR 0x5C, CHR 0x27, CHR 0x27] @ ''}}'') (Suc (Suc 3))
     = scanner_at (''{{'' @ [CHR 0x27, CHR 0x5C, CHR 0x27, CHR 0x27] @ ''}}'') 3"
proof -
  have e: "escape_of code_string1 = Some code_string1_backslash" by (simp add: escape_of_def)
  have h: "Suc 3 < length (''{{'' @ [CHR 0x27, CHR 0x5C, CHR 0x27, CHR 0x27] @ ''}}'')"
    "(''{{'' @ [CHR 0x27, CHR 0x5C, CHR 0x27, CHR 0x27] @ ''}}'') ! 3 = CHR 0x5C"
    "(''{{'' @ [CHR 0x27, CHR 0x5C, CHR 0x27, CHR 0x27] @ ''}}'') ! Suc 3 = CHR 0x27"
    by simp_all
  have st: "state (scanner_at (''{{'' @ [CHR 0x27, CHR 0x5C, CHR 0x27, CHR 0x27] @ ''}}'') 3)
            = code_string1"
    by code_simp
  have r: "state (scanner_at (''{{'' @ [CHR 0x27, CHR 0x5C, CHR 0x27, CHR 0x27] @ ''}}'') (Suc 3))
             = code_string1_backslash \<and>
           scanner_at (''{{'' @ [CHR 0x27, CHR 0x5C, CHR 0x27, CHR 0x27] @ ''}}'') (Suc (Suc 3))
             = scanner_at (''{{'' @ [CHR 0x27, CHR 0x5C, CHR 0x27, CHR 0x27] @ ''}}'') 3"
    using C8_escape [OF e, where k = 3
        and input = "''{{'' @ [CHR 0x27, CHR 0x5C, CHR 0x27, CHR 0x27] @ ''}}''"] h st
    by simp
  then have "dfa_step (''{{'' @ [CHR 0x27, CHR 0x5C, CHR 0x27, CHR 0x27] @ ''}}'') 4
     (scanner_at (''{{'' @ [CHR 0x27, CHR 0x5C, CHR 0x27, CHR 0x27] @ ''}}'') (Suc 3))
     = (scanner_at (''{{'' @ [CHR 0x27, CHR 0x5C, CHR 0x27, CHR 0x27] @ ''}}'') (Suc 3))
         \<lparr>state := code_string1\<rparr>"
    using C8_escape [OF e, where i = 4
        and input = "''{{'' @ [CHR 0x27, CHR 0x5C, CHR 0x27, CHR 0x27] @ ''}}''"
        and s = "scanner_at (''{{'' @ [CHR 0x27, CHR 0x5C, CHR 0x27, CHR 0x27] @ ''}}'') (Suc 3)"]
    by blast
  with r e h st show ?thesis by simp
qed

text \<open>
  C9. For every document in which neither \<^verbatim>\<open>{{\<close> nor \<^verbatim>\<open>}}\<close> occurs, the scan
  succeeds and returns one piece, the whole document.
\<close>

theorem C9_literal_only:
  assumes "\<not> occurs ''{{'' doc" and "\<not> occurs ''}}'' doc"
  shows "template_dfa [CharSXP doc] = Inr [CharSXP doc]"
proof -
  have "lit_inv doc (max 0 (int (length doc))) (final_scanner doc)"
    unfolding final_scanner_def using lit_inv_init assms(1) by (intro lit_inv_loop) simp_all
  then have "pieces_num (final_scanner doc) = 0" "pieceStartIdx (final_scanner doc) = 0"
    "in_html (state (final_scanner doc))"
    by (simp_all add: lit_inv_def)
  then show ?thesis by (simp add: template_dfa_result emitted_def)
qed

theorem C9_literal_only_witness:
  "\<not> occurs ''{{'' ''<p>a { b } c}</p>'' \<and> \<not> occurs ''}}'' ''<p>a { b } c}</p>'' \<and>
   template_dfa [CharSXP ''<p>a { b } c}</p>''] = Inr [CharSXP ''<p>a { b } c}</p>'']"
proof -
  have h: "\<not> occurs ''{{'' ''<p>a { b } c}</p>''" "\<not> occurs ''}}'' ''<p>a { b } c}</p>''"
    by simp_all
  from C9_literal_only [OF h] h show ?thesis by simp
qed

text \<open>
  C10. For the empty document the scan succeeds and returns one piece, the empty
  markup string.
\<close>

theorem C10_empty_document:
  "template_dfa [CharSXP ''''] = Inr [CharSXP '''']"
  by code_simp

end
